theory Spec2Isabelle
  imports Main "HOL-Library.Word" "HOL-Library.Multiset" "HOL-Library.Product_Lexorder"
begin

section \<open>Process scheduler simulator: data model\<close>

text \<open>
  The embedding follows \<^verbatim>\<open>src/main.cpp\<close>.  \<^verbatim>\<open>int\<close> fields (process id, priority, CPU
  slot values) are never used in arithmetic and are modelled as \<^typ>\<open>int\<close>;
  \<^verbatim>\<open>unsigned int\<close> fields (execution time, remaining time, simulation time, the slice
  length) are 32-bit words, so that \<^verbatim>\<open>--remaining_time\<close>, \<^verbatim>\<open>exec_time - remaining_time\<close>
  and \<^verbatim>\<open>time++\<close> wrap as in the program.
\<close>

type_synonym u32 = "32 word"

record proc_data =
  id_p :: int
  priority :: int
  exec_time :: u32
  remaining_time :: u32

definition compare_exec_time :: "proc_data \<Rightarrow> proc_data \<Rightarrow> bool" where
  "compare_exec_time pd1 pd2 = (exec_time pd1 < exec_time pd2)"

definition compare_priority :: "proc_data \<Rightarrow> proc_data \<Rightarrow> bool" where
  "compare_priority pd1 pd2 = (priority pd1 < priority pd2)"

definition compare_remaining_time :: "proc_data \<Rightarrow> proc_data \<Rightarrow> bool" where
  "compare_remaining_time pd1 pd2 = (remaining_time pd1 < remaining_time pd2)"

text \<open>
  \<^verbatim>\<open>operator>>\<close> on \<^verbatim>\<open>proc_data\<close>: three tokens are extracted and the remaining time
  starts equal to the execution time.  The tokens are given as a triple.
\<close>

type_synonym proc_tokens = "int \<times> int \<times> u32"

fun read_proc :: "proc_tokens \<Rightarrow> proc_data" where
  "read_proc (i, pr, e) = \<lparr>id_p = i, priority = pr, exec_time = e, remaining_time = e\<rparr>"

text \<open>
  Failures of the program: the \<^verbatim>\<open>std::invalid_argument\<close> thrown for an unknown schedule
  method, and the three places where the program leaves defined behaviour: an iterator
  moved or read beyond \<^verbatim>\<open>end()\<close>, and \<^verbatim>\<open>%\<close> by a zero slice length.
\<close>

datatype error = Invalid_Argument | Out_Of_Range | Division_By_Zero

section \<open>\<^verbatim>\<open>std::stable_sort\<close>\<close>

text \<open>
  The library routine is modelled by its contract: the stable arrangement of the range
  under the comparator, computed here by insertion from the right.  An element is placed
  behind exactly those elements that the comparator puts strictly before it, so elements
  that compare equivalent keep their order.
\<close>

fun insert_stable :: "('a \<Rightarrow> 'a \<Rightarrow> bool) \<Rightarrow> 'a \<Rightarrow> 'a list \<Rightarrow> 'a list" where
  "insert_stable lt x [] = [x]"
| "insert_stable lt x (y # ys) =
     (if lt y x then y # insert_stable lt x ys else x # y # ys)"

definition stable_sort :: "('a \<Rightarrow> 'a \<Rightarrow> bool) \<Rightarrow> 'a list \<Rightarrow> 'a list" where
  "stable_sort lt xs = foldr (insert_stable lt) xs []"

section \<open>Scheduler engine\<close>

subsection \<open>\<^verbatim>\<open>update_cpus_state\<close>\<close>

text \<open>The range-for over the slots with the iterator \<^verbatim>\<open>it_proc\<close> walking the process list.\<close>

fun fill_cpus :: "proc_data list \<Rightarrow> int list \<Rightarrow> int list" where
  "fill_cpus ps [] = []"
| "fill_cpus [] (c # cs) = (- 1) # fill_cpus [] cs"
| "fill_cpus (p # ps) (c # cs) = id_p p # fill_cpus ps cs"

text \<open>The lambda \<^verbatim>\<open>(i >= 0 && j >= 0) ? i < j : i > j\<close>.\<close>

definition cpu_less :: "int \<Rightarrow> int \<Rightarrow> bool" where
  "cpu_less i j = (if i \<ge> 0 \<and> j \<ge> 0 then i < j else i > j)"

definition update_cpus_state :: "proc_data list \<Rightarrow> int list \<Rightarrow> int list" where
  "update_cpus_state proc_list cpus_state = stable_sort cpu_less (fill_cpus proc_list cpus_state)"

subsection \<open>Policies\<close>

text \<open>
  Every policy returns the reordered process list and the new slot vector, or the
  failure it ran into.
\<close>

type_synonym sched = "error + (proc_data list \<times> int list)"

definition fcfs :: "proc_data list \<Rightarrow> int list \<Rightarrow> sched" where
  "fcfs proc_list cpus_state = Inr (proc_list, update_cpus_state proc_list cpus_state)"

text \<open>
  The loop shared by \<^verbatim>\<open>sjf\<close> and \<^verbatim>\<open>prio_fcfs_no_preemption\<close>: \<^verbatim>\<open>proc_it\<close> is the offset
  \<open>k\<close>; for every slot it is advanced once per process whose id equals the slot value.
  Advancing it beyond \<^verbatim>\<open>end()\<close> is \<^const>\<open>Out_Of_Range\<close>.
\<close>

fun skip_executing :: "proc_data list \<Rightarrow> nat \<Rightarrow> int list \<Rightarrow> error + nat" where
  "skip_executing proc_list k [] = Inr k"
| "skip_executing proc_list k (c # cs) =
     (if k = length proc_list \<or> c = - 1 then Inr k
      else let k' = k + length (filter (\<lambda>proc. c = id_p proc) proc_list)
           in if k' > length proc_list then Inl Out_Of_Range
              else skip_executing proc_list k' cs)"

definition sort_from :: "(proc_data \<Rightarrow> proc_data \<Rightarrow> bool) \<Rightarrow> nat \<Rightarrow> proc_data list \<Rightarrow> proc_data list" where
  "sort_from lt k proc_list = take k proc_list @ stable_sort lt (drop k proc_list)"

definition sjf :: "proc_data list \<Rightarrow> int list \<Rightarrow> sched" where
  "sjf proc_list cpus_state =
     (case skip_executing proc_list 0 cpus_state of
        Inl e \<Rightarrow> Inl e
      | Inr k \<Rightarrow> let proc_list' = sort_from compare_exec_time k proc_list
                in Inr (proc_list', update_cpus_state proc_list' cpus_state))"

definition srtf :: "proc_data list \<Rightarrow> int list \<Rightarrow> sched" where
  "srtf proc_list cpus_state =
     (let proc_list' = stable_sort compare_remaining_time proc_list
      in Inr (proc_list', update_cpus_state proc_list' cpus_state))"

text \<open>
  \<^verbatim>\<open>rr\<close>: the search \<^verbatim>\<open>while(cpu_state != proc_it->id && proc_it != proc_list.end())\<close>
  reads \<^verbatim>\<open>proc_it->id\<close> before it tests for \<^verbatim>\<open>end()\<close>.  When no process has the slot's id,
  the walk reaches \<^verbatim>\<open>end()\<close> and reads there, outside the elements of the vector.  What
  that access does is not fixed by the program: \<open>e\<close> is its outcome, \<open>None\<close> when the
  access faults (for a vector that never allocated, \<^verbatim>\<open>begin()\<close> is null) and \<open>Some v\<close> when
  it yields the value \<open>v\<close>.  Whatever \<open>v\<close> is, the loop stops at \<^verbatim>\<open>end()\<close>.  \<open>search\<close>
  returns the offset reached.
\<close>

fun search :: "int option \<Rightarrow> int \<Rightarrow> proc_data list \<Rightarrow> error + nat" where
  "search e c [] = (case e of None \<Rightarrow> Inl Out_Of_Range | Some v \<Rightarrow> Inr 0)"
| "search e c (p # ps) =
     (if c \<noteq> id_p p
      then (case search e c ps of Inl x \<Rightarrow> Inl x | Inr i \<Rightarrow> Inr (Suc i))
      else Inr 0)"

text \<open>
  The loop of \<^verbatim>\<open>rr\<close> over the slots.  \<open>end_read\<close> gives, for the contents of the vector,
  the outcome of a read at \<^verbatim>\<open>end()\<close>.  After a search that ended at \<^verbatim>\<open>end()\<close> the statement
  \<^verbatim>\<open>if (proc_it == proc_list.end()) continue;\<close> goes on with the next slot.
\<close>

fun rr_loop :: "(proc_data list \<Rightarrow> int option) \<Rightarrow> u32 \<Rightarrow> proc_data list \<Rightarrow> int list
                \<Rightarrow> error + proc_data list" where
  "rr_loop end_read rr_time proc_list [] = Inr proc_list"
| "rr_loop end_read rr_time proc_list (c # cs) =
     (if c = - 1 then Inr proc_list
      else case search (end_read proc_list) c proc_list of
        Inl x \<Rightarrow> Inl x
      | Inr i \<Rightarrow>
        if i = length proc_list then rr_loop end_read rr_time proc_list cs
        else let pd = proc_list ! i;
                 proc_executed_time = exec_time pd - remaining_time pd in
          if proc_executed_time > 0 then
            (if rr_time = 0 then Inl Division_By_Zero
             else if proc_executed_time mod rr_time = 0
               then rr_loop end_read rr_time (take i proc_list @ drop (Suc i) proc_list @ [pd]) cs
               else rr_loop end_read rr_time proc_list cs)
          else rr_loop end_read rr_time proc_list cs)"

definition rr :: "(proc_data list \<Rightarrow> int option) \<Rightarrow> proc_data list \<Rightarrow> int list \<Rightarrow> u32 \<Rightarrow> sched" where
  "rr end_read proc_list cpus_state rr_time =
     (case rr_loop end_read rr_time proc_list cpus_state of
        Inl e \<Rightarrow> Inl e
      | Inr proc_list' \<Rightarrow> Inr (proc_list', update_cpus_state proc_list' cpus_state))"

definition prio_fcfs :: "proc_data list \<Rightarrow> int list \<Rightarrow> sched" where
  "prio_fcfs proc_list cpus_state =
     (let proc_list' = stable_sort compare_priority proc_list
      in Inr (proc_list', update_cpus_state proc_list' cpus_state))"

definition prio_srtf :: "proc_data list \<Rightarrow> int list \<Rightarrow> sched" where
  "prio_srtf proc_list cpus_state =
     (let proc_list' = stable_sort compare_priority
                         (stable_sort compare_remaining_time proc_list)
      in Inr (proc_list', update_cpus_state proc_list' cpus_state))"

definition prio_fcfs_no_preemption :: "proc_data list \<Rightarrow> int list \<Rightarrow> sched" where
  "prio_fcfs_no_preemption proc_list cpus_state =
     (case skip_executing proc_list 0 cpus_state of
        Inl e \<Rightarrow> Inl e
      | Inr k \<Rightarrow> let proc_list' = sort_from compare_priority k proc_list
                in Inr (proc_list', update_cpus_state proc_list' cpus_state))"

definition all_cpus_sleeping :: "int list \<Rightarrow> bool" where
  "all_cpus_sleeping cpus_state = (\<not> list_ex (\<lambda>i. i \<noteq> - 1) cpus_state)"

section \<open>Simulation loop\<close>

text \<open>
  Standard input is a list of lines.  Tokenising a line is left to the stream operators;
  a line is given by what they deliver: nothing (\<^verbatim>\<open>in_avail() == 0\<close>), or a timestamp
  followed by the process triples of the line.  The end of the list is the end of the
  stream, where \<^verbatim>\<open>std::getline\<close> leaves the line empty.
\<close>

datatype line = Blank | Group u32 "proc_tokens list"

text \<open>
  The two arguments of the program that the loop uses, and \<open>end_read\<close>, the outcome of
  the reads at \<^verbatim>\<open>end()\<close> in \<^verbatim>\<open>rr\<close>, which belongs to the machine the program runs on.
\<close>

record config =
  schedule_method :: nat
  rr_time :: u32
  end_read :: "proc_data list \<Rightarrow> int option"

record sim =
  proc_list :: "proc_data list"
  cpus_state :: "int list"
  time :: u32
  reading :: bool
  stdin :: "line list"
  stdout :: "(u32 \<times> int list) list"

text \<open>The state at the head of \<^verbatim>\<open>main\<close>'s loop: \<^verbatim>\<open>cpus_state(cpu_count)\<close> holds zeros.\<close>

definition init :: "nat \<Rightarrow> line list \<Rightarrow> sim" where
  "init cpu_count lines =
     \<lparr>proc_list = [], cpus_state = replicate cpu_count 0, time = 0, reading = True,
      stdin = lines, stdout = []\<rparr>"

text \<open>The block \<^verbatim>\<open>if(read) { ... }\<close>.\<close>

definition read_input :: "sim \<Rightarrow> sim" where
  "read_input s =
     (if reading s then
        (case stdin s of
           [] \<Rightarrow> s\<lparr>reading := False\<rparr>
         | Blank # rest \<Rightarrow> s\<lparr>reading := False, stdin := rest\<rparr>
         | Group t pds # rest \<Rightarrow>
             s\<lparr>time := t, proc_list := proc_list s @ map read_proc pds, stdin := rest\<rparr>)
      else s)"

text \<open>The \<^verbatim>\<open>switch (method)\<close>.\<close>

definition run_method :: "config \<Rightarrow> proc_data list \<Rightarrow> int list \<Rightarrow> sched" where
  "run_method cfg pl cs =
     (if schedule_method cfg = 0 then fcfs pl cs
      else if schedule_method cfg = 1 then sjf pl cs
      else if schedule_method cfg = 2 then srtf pl cs
      else if schedule_method cfg = 3 then rr (end_read cfg) pl cs (rr_time cfg)
      else if schedule_method cfg = 4 then prio_fcfs pl cs
      else if schedule_method cfg = 5 then prio_srtf pl cs
      else if schedule_method cfg = 6 then prio_fcfs_no_preemption pl cs
      else Inl Invalid_Argument)"

text \<open>
  The loop \<^verbatim>\<open>// update proc_list\<close>.  \<open>account\<close> is one round for a slot value other than
  \<open>-1\<close>: the search \<^verbatim>\<open>while(it_proc->id != id) ++it_proc;\<close> has no test for \<^verbatim>\<open>end()\<close>, so
  an id that no process has is \<^const>\<open>Out_Of_Range\<close>; the process found is decremented
  and erased when it reaches zero.
\<close>

fun account :: "proc_data list \<Rightarrow> int \<Rightarrow> error + proc_data list" where
  "account [] c = Inl Out_Of_Range"
| "account (p # ps) c =
     (if id_p p \<noteq> c then (case account ps c of Inl e \<Rightarrow> Inl e | Inr ps' \<Rightarrow> Inr (p # ps'))
      else if remaining_time p - 1 = 0 then Inr ps
      else Inr (p\<lparr>remaining_time := remaining_time p - 1\<rparr> # ps))"

fun update_proc_list :: "proc_data list \<Rightarrow> int list \<Rightarrow> error + proc_data list" where
  "update_proc_list pl [] = Inr pl"
| "update_proc_list pl (c # cs) =
     (if c = - 1 then update_proc_list pl cs
      else case account pl c of Inl e \<Rightarrow> Inl e | Inr pl' \<Rightarrow> update_proc_list pl' cs)"

text \<open>One iteration of the \<^verbatim>\<open>while\<close> loop of \<^verbatim>\<open>main\<close>.\<close>

definition loop_body :: "config \<Rightarrow> sim \<Rightarrow> error + sim" where
  "loop_body cfg s =
     (let s1 = read_input s in
      case run_method cfg (proc_list s1) (cpus_state s1) of
        Inl e \<Rightarrow> Inl e
      | Inr (pl, cs) \<Rightarrow>
          (case update_proc_list pl cs of
             Inl e \<Rightarrow> Inl e
           | Inr pl' \<Rightarrow>
               Inr (s1\<lparr>proc_list := pl', cpus_state := cs,
                       stdout := stdout s1 @ [(time s1, cs)], time := time s1 + 1\<rparr>)))"

definition loop_cond :: "sim \<Rightarrow> bool" where
  "loop_cond s = (reading s \<or> \<not> all_cpus_sleeping (cpus_state s))"

text \<open>
  The loop with fuel: \<open>None\<close> when the fuel does not suffice, otherwise the failure or
  the state in which the loop condition is false.
\<close>

fun main_loop :: "nat \<Rightarrow> config \<Rightarrow> sim \<Rightarrow> (error + sim) option" where
  "main_loop 0 cfg s = None"
| "main_loop (Suc n) cfg s =
     (if loop_cond s then
        (case loop_body cfg s of Inl e \<Rightarrow> Some (Inl e) | Inr s' \<Rightarrow> main_loop n cfg s')
      else Some (Inr s))"

text \<open>The state after at most \<open>n\<close> iterations, for statements about intermediate ticks.\<close>

fun run_ticks :: "nat \<Rightarrow> config \<Rightarrow> sim \<Rightarrow> error + sim" where
  "run_ticks 0 cfg s = Inr s"
| "run_ticks (Suc n) cfg s =
     (if loop_cond s then
        (case loop_body cfg s of Inl e \<Rightarrow> Inl e | Inr s' \<Rightarrow> run_ticks n cfg s')
      else Inr s)"

section \<open>Auxiliary notions for the statements\<close>

text \<open>
  The comparator of \<^const>\<open>update_cpus_state\<close> is the strict order of this key: values from
  \<open>0\<close> upwards come first in ascending order, negative values after them in descending
  order.
\<close>

definition cpu_key :: "int \<Rightarrow> bool \<times> int" where
  "cpu_key i = (i < 0, if i < 0 then - i else i)"

text \<open>
  The lexicographic order by priority, then remaining time: as a key and as a
  comparator in the style of the program's \<^verbatim>\<open>compare_\<close> functions.
\<close>

definition prio_rem_key :: "proc_data \<Rightarrow> int \<times> u32" where
  "prio_rem_key pd = (priority pd, remaining_time pd)"

definition compare_priority_remaining :: "proc_data \<Rightarrow> proc_data \<Rightarrow> bool" where
  "compare_priority_remaining pd1 pd2 =
     (priority pd1 < priority pd2 \<or>
      (priority pd1 = priority pd2 \<and> remaining_time pd1 < remaining_time pd2))"


text \<open>
  What the accounting loop does to the processes whose ids are in a set \<open>S\<close>, when
  every id of \<open>S\<close> is met once: such a process is decremented, and dropped when it
  reaches zero.
\<close>

definition run_proc :: "proc_data \<Rightarrow> proc_data list" where
  "run_proc p = (if remaining_time p - 1 = 0 then []
                 else [p\<lparr>remaining_time := remaining_time p - 1\<rparr>])"

definition run_ids :: "int set \<Rightarrow> proc_data list \<Rightarrow> proc_data list" where
  "run_ids S pl = concat (map (\<lambda>p. if id_p p \<in> S then run_proc p else [p]) pl)"

text \<open>
  The offset of the first process with the id \<open>c\<close>, the length of the list when there is
  none; and the reads at \<^verbatim>\<open>end()\<close> that do not fault for any arrangement of a ready list.
\<close>

fun offset :: "int \<Rightarrow> proc_data list \<Rightarrow> nat" where
  "offset c [] = 0"
| "offset c (p # ps) = (if c \<noteq> id_p p then Suc (offset c ps) else 0)"

definition reads_ok :: "(proc_data list \<Rightarrow> int option) \<Rightarrow> proc_data list \<Rightarrow> bool" where
  "reads_ok er pl = (\<forall>pl'. mset pl' = mset pl \<longrightarrow> er pl' \<noteq> None)"



text \<open>
  Round robin: the executed time \<^verbatim>\<open>exec_time - remaining_time\<close> of a process is positive and
  a multiple of the slice length; and the processes that the loop of \<^verbatim>\<open>rr\<close> looks at, which
  are those whose id is in a slot in front of the first slot holding \<open>-1\<close>.
\<close>

definition slice_ended :: "u32 \<Rightarrow> proc_data \<Rightarrow> bool" where
  "slice_ended q p = (0 < exec_time p - remaining_time p
                      \<and> (exec_time p - remaining_time p) mod q = 0)"

definition rr_moved :: "u32 \<Rightarrow> int list \<Rightarrow> proc_data \<Rightarrow> bool" where
  "rr_moved q cs p = (id_p p \<in> set (takeWhile (\<lambda>c. c \<noteq> - 1) cs) \<and> slice_ended q p)"

text \<open>
  Notions for statements about whole runs.  \<open>groups_read\<close> are the process triples of the
  lines that the loop will read: those before the first blank line.  \<open>pending\<close> are the
  processes of the ready list followed by those still to be read.
\<close>

fun groups_read :: "line list \<Rightarrow> proc_tokens list" where
  "groups_read [] = []"
| "groups_read (Blank # rest) = []"
| "groups_read (Group t pds # rest) = pds @ groups_read rest"

definition pending :: "sim \<Rightarrow> proc_data list" where
  "pending s = proc_list s @ (if reading s then map read_proc (groups_read (stdin s)) else [])"

text \<open>
  The number of ticks a process in the ready list still runs: its remaining time, and
  \<open>2\<^sup>3\<^sup>2\<close> when that is \<open>0\<close>, since the decrement comes before the test for zero.  \<open>owed\<close>
  adds this up for the processes with one id; \<open>appearances\<close> counts the records whose
  slots hold an id.
\<close>

definition wt :: "proc_data \<Rightarrow> nat" where
  "wt p = (if remaining_time p = 0 then 2 ^ 32 else unat (remaining_time p))"











section \<open>\<^const>\<open>stable_sort\<close> is the stable sort by key\<close>

lemma insert_stable_insort_key:
  "insert_stable (\<lambda>a b. f a < f b) x xs = insort_key (f :: 'a \<Rightarrow> 'k::linorder) x xs"
  by (induction xs) (auto simp: not_less)

lemma stable_sort_sort_key:
  "stable_sort (\<lambda>a b. f a < f b) xs = sort_key (f :: 'a \<Rightarrow> 'k::linorder) xs"
  by (induction xs) (simp_all add: stable_sort_def insert_stable_insort_key sort_key_def)

lemma cpu_less_key: "cpu_less = (\<lambda>i j. cpu_key i < cpu_key j)"
  by (intro ext) (auto simp: cpu_less_def cpu_key_def less_prod_def)

lemma update_cpus_state_sort_key:
  "update_cpus_state pl cs = sort_key cpu_key (fill_cpus pl cs)"
  by (simp add: update_cpus_state_def cpu_less_key stable_sort_sort_key)

lemma fill_cpus_eq:
  "fill_cpus pl cs = map id_p (take (length cs) pl) @ replicate (length cs - length pl) (- 1)"
  by (induction pl cs rule: fill_cpus.induct) (simp_all add: replicate_app_Cons_same)


lemma mset_update_cpus_state: "mset (update_cpus_state pl cs) = mset (fill_cpus pl cs)"
  by (simp add: update_cpus_state_sort_key)

lemma sort_key_cpu_key_nonneg:
  "\<forall>x\<in>set xs. 0 \<le> x \<Longrightarrow> sort_key cpu_key (xs @ replicate n (- 1)) = sort xs @ replicate n (- 1)"
proof (rule properties_for_sort_key)
  assume nn: "\<forall>x\<in>set xs. 0 \<le> x"
  show "mset (sort xs @ replicate n (- 1)) = mset (xs @ replicate n (- 1))" by simp
  have m: "map cpu_key (sort xs) = map (Pair False) (sort xs)"
    using nn by (intro map_cong) (auto simp: cpu_key_def)
  have s: "sorted (map (Pair False) (sort xs))"
    by (simp add: sorted_map less_eq_prod_def)
  have le: "\<forall>x\<in>set xs. cpu_key x \<le> cpu_key (- 1)"
    using nn by (auto simp: cpu_key_def less_eq_prod_def)
  show "sorted (map cpu_key (sort xs @ replicate n (- 1)))"
  proof -
    have "sorted (map cpu_key (sort xs))" by (simp only: m s)
    then show ?thesis using le by (simp add: sorted_append)
  qed
  fix k assume "k \<in> set (sort xs @ replicate n (- 1))"
  show "filter (\<lambda>x. cpu_key k = cpu_key x) (sort xs @ replicate n (- 1))
      = filter (\<lambda>x. cpu_key k = cpu_key x) (xs @ replicate n (- 1))"
  proof -
    have inj: "\<And>x. (cpu_key k = cpu_key x) = (k = x)"
      by (auto simp: cpu_key_def split: if_splits)
    have "filter (\<lambda>x. k = x) (sort xs) = filter (\<lambda>x. k = x) xs"
      using sort_key_stable[of "\<lambda>x. x" k xs] by (simp add: eq_commute)
    then show ?thesis by (simp add: inj)
  qed
qed

lemma update_cpus_state_nonneg:
  assumes "\<forall>p\<in>set (take (length cs) pl). 0 \<le> id_p p"
  shows "update_cpus_state pl cs
       = sort (map id_p (take (length cs) pl)) @ replicate (length cs - length pl) (- 1)"
  using assms by (simp add: update_cpus_state_sort_key fill_cpus_eq sort_key_cpu_key_nonneg)

lemma compare_defs:
  "compare_priority = (\<lambda>a b. priority a < priority b)"
  "compare_remaining_time = (\<lambda>a b. remaining_time a < remaining_time b)"
  "compare_exec_time = (\<lambda>a b. exec_time a < exec_time b)"
  by (intro ext; simp add: compare_priority_def compare_remaining_time_def compare_exec_time_def)+


lemma compare_priority_remaining_key:
  "compare_priority_remaining = (\<lambda>a b. prio_rem_key a < prio_rem_key b)"
  by (intro ext) (auto simp: compare_priority_remaining_def prio_rem_key_def less_prod_def)

lemma insort_priority_as_pair:
  "\<forall>w\<in>set ws. remaining_time x \<le> remaining_time w \<Longrightarrow>
   insort_key priority x ws = insort_key prio_rem_key x ws"
  by (induction ws) (auto simp: prio_rem_key_def less_eq_prod_def)

lemma sort_priority_insort_remaining:
  "sorted (map remaining_time zs) \<Longrightarrow>
   sort_key priority (insort_key remaining_time x zs)
   = insort_key prio_rem_key x (sort_key priority zs)"
proof (induction zs)
  case Nil
  then show ?case by simp
next
  case (Cons z zs)
  have zmin: "\<forall>w\<in>set zs. remaining_time z \<le> remaining_time w"
    using Cons.prems by auto
  show ?case
  proof (cases "remaining_time x \<le> remaining_time z")
    case True
    then have "\<forall>w\<in>set (sort_key priority (z # zs)). remaining_time x \<le> remaining_time w"
      using zmin by (auto simp del: sort_key_simps)
    then have "insort_key priority x (sort_key priority (z # zs))
        = insort_key prio_rem_key x (sort_key priority (z # zs))"
      by (rule insort_priority_as_pair)
    moreover have "sort_key priority (insort_key remaining_time x (z # zs))
        = insort_key priority x (sort_key priority (z # zs))"
      using True by simp
    ultimately show ?thesis by simp
  next
    case False
    then have lt: "remaining_time z < remaining_time x" by simp
    have ne: "prio_rem_key z \<noteq> prio_rem_key x"
      using lt by (auto simp: prio_rem_key_def)
    have a: "\<forall>w\<in>set (insort_key prio_rem_key x (sort_key priority zs)).
               remaining_time z \<le> remaining_time w"
      using zmin lt by (auto simp: set_insort_key)
    have b: "\<forall>w\<in>set (sort_key priority zs). remaining_time z \<le> remaining_time w"
      using zmin by auto
    have "sort_key priority (insort_key remaining_time x (z # zs))
        = insort_key priority z (sort_key priority (insort_key remaining_time x zs))"
      using False by simp
    also have "\<dots> = insort_key priority z (insort_key prio_rem_key x (sort_key priority zs))"
      using Cons by simp
    also have "\<dots> = insort_key prio_rem_key z (insort_key prio_rem_key x (sort_key priority zs))"
      using a by (rule insort_priority_as_pair)
    also have "\<dots> = insort_key prio_rem_key x (insort_key prio_rem_key z (sort_key priority zs))"
      using ne by (rule insort_key_left_comm[OF not_sym])
    also have "\<dots> = insort_key prio_rem_key x (insort_key priority z (sort_key priority zs))"
      using b by (simp add: insort_priority_as_pair)
    finally show ?thesis by simp
  qed
qed

lemma sort_priority_sort_remaining:
  "sort_key priority (sort_key remaining_time ps) = sort_key prio_rem_key ps"
proof (induction ps)
  case Nil
  show ?case by simp
next
  case (Cons p ps)
  have "sort_key priority (sort_key remaining_time (p # ps))
      = sort_key priority (insort_key remaining_time p (sort_key remaining_time ps))"
    by simp
  also have "\<dots> = insort_key prio_rem_key p (sort_key priority (sort_key remaining_time ps))"
    by (rule sort_priority_insort_remaining) simp
  also have "\<dots> = sort_key prio_rem_key (p # ps)"
    by (simp only: Cons.IH sort_key_simps)
  finally show ?case .
qed

text \<open>
  Claim C8.  The reordering of \<^const>\<open>prio_srtf\<close>, a stable sort by remaining time followed
  by a stable sort by priority, is the stable sort of the ready list under the
  lexicographic comparator on (priority, remaining time): the result is sorted by that
  pair, it is a permutation of the list, and processes with the same priority and the
  same remaining time keep their arrival order.
\<close>

theorem prio_srtf_lexicographic:
  "(\<exists>cs'. prio_srtf pl cs = Inr (stable_sort compare_priority_remaining pl, cs'))
   \<and> sorted (map prio_rem_key (stable_sort compare_priority_remaining pl))
   \<and> mset (stable_sort compare_priority_remaining pl) = mset pl
   \<and> (\<forall>k. filter (\<lambda>pd. prio_rem_key pd = k) (stable_sort compare_priority_remaining pl)
          = filter (\<lambda>pd. prio_rem_key pd = k) pl)"
  by (simp add: prio_srtf_def Let_def compare_defs compare_priority_remaining_key stable_sort_sort_key
      sort_priority_sort_remaining sort_key_stable)

section \<open>Slot fill\<close>

text \<open>
  Claim C1 (as amended).  The slot fill sets slot \<open>k\<close> to the id of the \<open>k\<close>-th process for
  \<open>k\<close> below the number of slots and of processes and every other slot to \<open>-1\<close>; the slots
  are then sorted by \<^const>\<open>cpu_key\<close>.  When the ids placed in the slots are not negative, the
  result is these ids in ascending order followed by the idle slots; it depends on the
  ready list and the number of slots only.
\<close>

theorem update_cpus_state_slot_fill:
  "fill_cpus pl cs = map id_p (take (length cs) pl) @ replicate (length cs - length pl) (- 1)
   \<and> update_cpus_state pl cs = sort_key cpu_key (fill_cpus pl cs)
   \<and> ((\<forall>p\<in>set (take (length cs) pl). 0 \<le> id_p p) \<longrightarrow>
        update_cpus_state pl cs
        = sort (map id_p (take (length cs) pl)) @ replicate (length cs - length pl) (- 1))"
  using fill_cpus_eq[of pl cs] update_cpus_state_nonneg[of cs pl]
    update_cpus_state_sort_key[of pl cs]
  by simp

text \<open>
  An instance of the slot fill with three processes and two slots.
\<close>

theorem update_cpus_state_slot_fill_witness:
  "update_cpus_state [read_proc (7, 0, 5), read_proc (3, 0, 5), read_proc (4, 0, 1)] [0, 0] = [3, 7]"
  using update_cpus_state_slot_fill[of "[read_proc (7, 0, 5), read_proc (3, 0, 5), read_proc (4, 0, 1)]" "[0, 0]",
      THEN conjunct2, THEN conjunct2]
  by simp

text \<open>
  Claim C1 as stated fails for a process with a negative id: the comparator puts every
  negative value behind the values from \<open>0\<close> upwards, in descending order, so the idle
  slot \<open>-1\<close> comes before the slot occupied by process \<open>-5\<close>.
\<close>

theorem update_cpus_state_negative_id:
  "update_cpus_state [read_proc (- 5, 0, 5), read_proc (3, 0, 5)] [0, 0, 0] = [3, - 1, - 5]
   \<and> update_cpus_state [read_proc (- 5, 0, 5), read_proc (3, 0, 5)] [0, 0, 0]
       \<noteq> sort (map id_p (take 3 [read_proc (- 5, 0, 5), read_proc (3, 0, 5)])) @ replicate (3 - 2) (- 1)"
  by (simp add: update_cpus_state_def stable_sort_def cpu_less_def)

section \<open>The accounting loop\<close>

lemma run_ids_simps [simp]:
  "run_ids S [] = []"
  "run_ids S (p # pl) = (if id_p p \<in> S then run_proc p else [p]) @ run_ids S pl"
  by (simp_all add: run_ids_def)


lemma length_run_proc: "length (run_proc p) \<le> 1"
  by (simp add: run_proc_def)









section \<open>The policies permute the ready list\<close>

lemma mset_insert_stable: "mset (insert_stable lt x xs) = add_mset x (mset xs)"
  by (induction xs) auto

lemma mset_stable_sort: "mset (stable_sort lt xs) = mset xs"
  by (induction xs) (simp_all add: stable_sort_def mset_insert_stable)

lemma mset_sort_from: "mset (sort_from lt k pl) = mset pl"
proof -
  have "mset (take k pl) + mset (drop k pl) = mset pl"
    by (metis append_take_drop_id mset_append)
  then show ?thesis by (simp add: sort_from_def mset_stable_sort)
qed

lemma offset_le: "offset c pl \<le> length pl"
  by (induction pl) auto

lemma offset_absent: "c \<notin> id_p ` set pl \<Longrightarrow> offset c pl = length pl"
  by (induction pl) auto

lemma offset_present: "c \<in> id_p ` set pl \<Longrightarrow> offset c pl < length pl \<and> id_p (pl ! offset c pl) = c"
  by (induction pl) auto

lemma mset_move_back:
  "i < length pl \<Longrightarrow> mset (take i pl @ drop (Suc i) pl @ [pl ! i]) = mset pl"
proof -
  assume "i < length pl"
  then have "pl = take i pl @ pl ! i # drop (Suc i) pl" by (rule id_take_nth_drop)
  then have "mset pl = mset (take i pl @ pl ! i # drop (Suc i) pl)" by simp
  then show ?thesis by simp
qed

lemma mset_move_back_add:
  "i < length pl \<Longrightarrow>
   add_mset (pl ! i) (mset (take i pl) + mset (drop (Suc i) pl)) = mset pl"
  using mset_move_back[of i pl] by simp

lemma method_cases:
  "(m::nat) \<le> 6 \<Longrightarrow> m = 0 \<or> m = 1 \<or> m = 2 \<or> m = 3 \<or> m = 4 \<or> m = 5 \<or> m = 6"
  by arith

lemma search_offset:
  "search e c pl = (if c \<in> id_p ` set pl then Inr (offset c pl)
                    else case e of None \<Rightarrow> Inl Out_Of_Range | Some v \<Rightarrow> Inr (length pl))"
  by (induction pl) (auto split: option.splits)

lemma rr_loop_Cons_gen:
  "rr_loop er q pl (c # cs) =
     (if c = - 1 then Inr pl
      else if c \<notin> id_p ` set pl
        then (case er pl of None \<Rightarrow> Inl Out_Of_Range | Some v \<Rightarrow> rr_loop er q pl cs)
      else if 0 < exec_time (pl ! offset c pl) - remaining_time (pl ! offset c pl) then
        (if q = 0 then Inl Division_By_Zero
         else if (exec_time (pl ! offset c pl) - remaining_time (pl ! offset c pl)) mod q = 0
           then rr_loop er q (take (offset c pl) pl @ drop (Suc (offset c pl)) pl @ [pl ! offset c pl]) cs
           else rr_loop er q pl cs)
      else rr_loop er q pl cs)"
proof -
  have "c \<in> id_p ` set pl \<Longrightarrow> offset c pl \<noteq> length pl"
    using offset_present[of c pl] by simp
  then show ?thesis
    by (simp add: search_offset Let_def split: option.splits)
qed

lemma rr_loop_Cons:
  assumes "q \<noteq> 0"
  shows "rr_loop er q pl (c # cs) =
     (if c = - 1 then Inr pl
      else if c \<notin> id_p ` set pl
        then (case er pl of None \<Rightarrow> Inl Out_Of_Range | Some v \<Rightarrow> rr_loop er q pl cs)
      else if slice_ended q (pl ! offset c pl)
        then rr_loop er q (take (offset c pl) pl @ drop (Suc (offset c pl)) pl @ [pl ! offset c pl]) cs
      else rr_loop er q pl cs)"
  unfolding rr_loop_Cons_gen using assms by (simp add: slice_ended_def)

declare rr_loop.simps(2) [simp del]

lemma rr_loop_mset:
  "rr_loop er q pl cs = Inr pl' \<Longrightarrow> mset pl' = mset pl"
proof (induction cs arbitrary: pl)
  case Nil
  then show ?case by simp
next
  case (Cons c cs)
  let ?pl = "take (offset c pl) pl @ drop (Suc (offset c pl)) pl @ [pl ! offset c pl]"
  show ?case
  proof (cases "c = - 1")
    case True
    then show ?thesis using Cons.prems by (simp add: rr_loop_Cons_gen)
  next
    case c: False
    show ?thesis
    proof (cases "c \<in> id_p ` set pl")
      case False
      then have "rr_loop er q pl cs = Inr pl'"
        using Cons.prems c by (simp add: rr_loop_Cons_gen split: option.splits)
      then show ?thesis by (rule Cons.IH)
    next
      case True
      then have lt: "offset c pl < length pl"
        using offset_present[of c pl] by simp
      have "rr_loop er q pl cs = Inr pl' \<or> rr_loop er q ?pl cs = Inr pl'"
        using Cons.prems c True by (simp add: rr_loop_Cons_gen split: if_splits)
      then show ?thesis
      proof
        assume "rr_loop er q pl cs = Inr pl'"
        then show ?thesis by (rule Cons.IH)
      next
        assume "rr_loop er q ?pl cs = Inr pl'"
        then have "mset pl' = mset ?pl" by (rule Cons.IH)
        then show ?thesis by (simp only: mset_move_back[OF lt])
      qed
    qed
  qed
qed

lemma reads_ok_mset: "reads_ok er pl \<Longrightarrow> mset pl1 = mset pl \<Longrightarrow> reads_ok er pl1"
  by (simp add: reads_ok_def)

lemma reads_ok_self: "reads_ok er pl \<Longrightarrow> \<exists>v. er pl = Some v"
  by (auto simp: reads_ok_def)

lemma rr_loop_total:
  "q \<noteq> 0 \<Longrightarrow> reads_ok er pl \<Longrightarrow> \<exists>pl'. rr_loop er q pl cs = Inr pl'"
proof (induction cs arbitrary: pl)
  case Nil
  then show ?case by simp
next
  case (Cons c cs)
  let ?pl = "take (offset c pl) pl @ drop (Suc (offset c pl)) pl @ [pl ! offset c pl]"
  obtain v where v: "er pl = Some v" using reads_ok_self[OF Cons.prems(2)] by blast
  obtain pl1 where st: "rr_loop er q pl cs = Inr pl1"
    using Cons.IH[OF Cons.prems] by blast
  show ?case
  proof (cases "c \<in> id_p ` set pl")
    case False
    then show ?thesis using v st by (simp add: rr_loop_Cons[OF Cons.prems(1)])
  next
    case True
    then have lt: "offset c pl < length pl"
      using offset_present[of c pl] by simp
    have "reads_ok er ?pl"
      using Cons.prems(2) mset_move_back[OF lt] by (rule reads_ok_mset)
    then obtain pl2 where "rr_loop er q ?pl cs = Inr pl2"
      using Cons.IH[OF Cons.prems(1)] by blast
    then show ?thesis using True st by (simp add: rr_loop_Cons[OF Cons.prems(1)])
  qed
qed




lemma run_method_Inr:
  assumes "run_method cfg pl cs = Inr (pl', cs')"
  shows "mset pl' = mset pl \<and> cs' = update_cpus_state pl' cs"
proof -
  have m: "schedule_method cfg \<le> 6"
    using assms by (auto simp: run_method_def split: if_splits)
  then consider "schedule_method cfg = 0" | "schedule_method cfg = 1" | "schedule_method cfg = 2" | "schedule_method cfg = 3"
    | "schedule_method cfg = 4" | "schedule_method cfg = 5" | "schedule_method cfg = 6"
    using method_cases[of "schedule_method cfg"] by auto
  then show ?thesis
  proof cases
    case 1
    then show ?thesis using assms by (auto simp: run_method_def fcfs_def)
  next
    case 2
    then show ?thesis using assms
      by (auto simp: run_method_def sjf_def mset_sort_from Let_def split: sum.splits)
  next
    case 3
    then show ?thesis using assms by (auto simp: run_method_def srtf_def mset_stable_sort Let_def)
  next
    case 4
    then show ?thesis using assms
      by (auto simp: run_method_def rr_def dest: rr_loop_mset split: sum.splits)
  next
    case 5
    then show ?thesis using assms by (auto simp: run_method_def prio_fcfs_def mset_stable_sort Let_def)
  next
    case 6
    then show ?thesis using assms by (auto simp: run_method_def prio_srtf_def mset_stable_sort Let_def)
  next
    case 7
    then show ?thesis using assms
      by (auto simp: run_method_def prio_fcfs_no_preemption_def mset_sort_from Let_def split: sum.splits)
  qed
qed

section \<open>The slots after a policy has run\<close>

lemma filter_slots_mset:
  "mset (filter (\<lambda>c. c \<noteq> - 1) (update_cpus_state pl cs))
   = mset (filter (\<lambda>c. c \<noteq> - 1) (map id_p (take (length cs) pl)))"
proof -
  have "mset (filter (\<lambda>c. c \<noteq> - 1) (update_cpus_state pl cs))
      = mset (filter (\<lambda>c. c \<noteq> - 1) (fill_cpus pl cs))"
    by (simp only: mset_filter mset_update_cpus_state)
  also have "filter (\<lambda>c. c \<noteq> - 1) (fill_cpus pl cs)
      = filter (\<lambda>c. c \<noteq> - 1) (map id_p (take (length cs) pl))"
    by (simp add: fill_cpus_eq)
  finally show ?thesis .
qed


lemma distinct_slots:
  assumes "distinct (map id_p pl)"
  shows "distinct (filter (\<lambda>c. c \<noteq> - 1) (update_cpus_state pl cs))"
proof -
  have "distinct (map id_p (take (length cs) pl))"
    using assms by (simp add: distinct_take take_map[symmetric])
  then have "distinct (filter (\<lambda>c. c \<noteq> - 1) (map id_p (take (length cs) pl)))"
    by (rule distinct_filter)
  then show ?thesis
    using filter_slots_mset[of pl cs] mset_eq_imp_distinct_iff by blast
qed


lemma account_present:
  "c \<in> id_p ` set pl \<Longrightarrow>
   \<exists>pl1. account pl c = Inr pl1 \<and> mset (map id_p pl) - {#c#} \<subseteq># mset (map id_p pl1)"
proof (induction pl)
  case Nil
  then show ?case by simp
next
  case (Cons p pl)
  show ?case
  proof (cases "id_p p = c")
    case True
    then show ?thesis by simp
  next
    case False
    then have "c \<in> id_p ` set pl" using Cons.prems by auto
    then obtain pl1 where a: "account pl c = Inr pl1"
      and s: "mset (map id_p pl) - {#c#} \<subseteq># mset (map id_p pl1)"
      using Cons.IH by blast
    have "mset (map id_p (p # pl)) - {#c#} = add_mset (id_p p) (mset (map id_p pl) - {#c#})"
      using False by simp
    also have "\<dots> \<subseteq># add_mset (id_p p) (mset (map id_p pl1))"
      using s by (simp only: mset_subset_eq_add_mset_cancel)
    finally have "mset (map id_p (p # pl)) - {#c#} \<subseteq># mset (map id_p (p # pl1))" by simp
    then show ?thesis using False a by simp
  qed
qed

lemma update_proc_list_ok:
  "mset (filter (\<lambda>c. c \<noteq> - 1) cs) \<subseteq># mset (map id_p pl) \<Longrightarrow>
   \<exists>pl''. update_proc_list pl cs = Inr pl''"
proof (induction cs arbitrary: pl)
  case Nil
  show ?case by simp
next
  case (Cons c cs)
  show ?case
  proof (cases "c = - 1")
    case True
    then show ?thesis using Cons by simp
  next
    case False
    then have sub: "add_mset c (mset (filter (\<lambda>c. c \<noteq> - 1) cs)) \<subseteq># mset (map id_p pl)"
      using Cons.prems by simp
    then have "c \<in># mset (map id_p pl)" by (rule mset_subset_eq_insertD[THEN conjunct1])
    then have cin: "c \<in> id_p ` set pl" by simp
    then obtain pl1 where a: "account pl c = Inr pl1"
      and s: "mset (map id_p pl) - {#c#} \<subseteq># mset (map id_p pl1)"
      using account_present by blast
    have "mset (filter (\<lambda>c. c \<noteq> - 1) cs) \<subseteq># mset (map id_p pl) - {#c#}"
      using sub[unfolded insert_subset_eq_iff] by (rule conjunct2)
    then have "mset (filter (\<lambda>c. c \<noteq> - 1) cs) \<subseteq># mset (map id_p pl1)"
      using s by (rule subset_mset.order_trans)
    then obtain pl'' where "update_proc_list pl1 cs = Inr pl''"
      using Cons.IH by blast
    then show ?thesis using False a by simp
  qed
qed

lemma slots_sub_mset:
  "mset (filter (\<lambda>c. c \<noteq> - 1) (update_cpus_state pl cs)) \<subseteq># mset (map id_p pl)"
proof -
  have "mset (filter (\<lambda>c. c \<noteq> - 1) (map id_p (take (length cs) pl)))
      \<subseteq># mset (map id_p (take (length cs) pl))"
    by (simp only: mset_filter multiset_filter_subset)
  also have "mset (map id_p (take (length cs) pl)) \<subseteq># mset (map id_p pl)"
  proof -
    have "mset (map id_p pl) = mset (map id_p (take (length cs) pl)) + mset (map id_p (drop (length cs) pl))"
      by (metis append_take_drop_id map_append mset_append)
    then show ?thesis by (simp only: mset_subset_eq_add_left)
  qed
  finally show ?thesis by (simp only: filter_slots_mset)
qed

text \<open>
  Claim C9 (as amended).  After any policy, every slot value other than \<open>-1\<close> is the id of
  a process of the ready list, and no id occurs in more slots than there are processes
  with it; so the accounting loop finds a process for every occupied slot and returns
  a list: it does not run beyond the end.  The slot values other than \<open>-1\<close> are pairwise
  distinct when the ids of the ready list are.
\<close>

theorem slots_valid_after_assign:
  assumes "run_method cfg pl cs = Inr (pl', cs')"
  shows "set (filter (\<lambda>c. c \<noteq> - 1) cs') \<subseteq> id_p ` set pl'
       \<and> mset (filter (\<lambda>c. c \<noteq> - 1) cs') \<subseteq># mset (map id_p pl')
       \<and> (\<exists>pl''. update_proc_list pl' cs' = Inr pl'')
       \<and> (distinct (map id_p pl) \<longrightarrow> distinct (filter (\<lambda>c. c \<noteq> - 1) cs'))"
proof -
  have r: "mset pl' = mset pl" "cs' = update_cpus_state pl' cs"
    using run_method_Inr[OF assms] by simp_all
  have m: "mset (filter (\<lambda>c. c \<noteq> - 1) cs') \<subseteq># mset (map id_p pl')"
    unfolding r(2) by (rule slots_sub_mset)
  have "set_mset (mset (filter (\<lambda>c. c \<noteq> - 1) cs')) \<subseteq> set_mset (mset (map id_p pl'))"
    using m by (rule set_mset_mono)
  then have s: "set (filter (\<lambda>c. c \<noteq> - 1) cs') \<subseteq> id_p ` set pl'"
    by (simp only: set_mset_mset set_map)
  have u: "\<exists>pl''. update_proc_list pl' cs' = Inr pl''"
    using m by (rule update_proc_list_ok)
  have d: "distinct (filter (\<lambda>c. c \<noteq> - 1) cs')" if dp: "distinct (map id_p pl)"
  proof -
    have "distinct (map id_p pl')"
      using dp r(1) by (metis mset_eq_imp_distinct_iff mset_map)
    then show ?thesis unfolding r(2) by (rule distinct_slots)
  qed
  show ?thesis using s m u d by (intro conjI impI)
qed

text \<open>An instance: shortest remaining time first with three processes and two slots.\<close>

theorem slots_valid_after_assign_witness:
  "set (filter (\<lambda>c. c \<noteq> - 1) [2, 3 :: int])
       \<subseteq> id_p ` set [read_proc (2, 0, 1), read_proc (3, 1, 1), read_proc (1, 0, 2)]
   \<and> mset (filter (\<lambda>c. c \<noteq> - 1) [2, 3 :: int])
       \<subseteq># mset (map id_p [read_proc (2, 0, 1), read_proc (3, 1, 1), read_proc (1, 0, 2)])
   \<and> (\<exists>pl''. update_proc_list [read_proc (2, 0, 1), read_proc (3, 1, 1), read_proc (1, 0, 2)] [2, 3]
              = Inr pl'')
   \<and> distinct (filter (\<lambda>c. c \<noteq> - 1) [2, 3 :: int])"
proof -
  have d: "distinct (map id_p [read_proc (2, 0, 1), read_proc (1, 0, 2), read_proc (3, 1, 1)])"
    by simp
  have r: "run_method \<lparr>schedule_method = 2, rr_time = 1, end_read = (\<lambda>pl. None)\<rparr>
        [read_proc (2, 0, 1), read_proc (1, 0, 2), read_proc (3, 1, 1)] [0, 0]
      = Inr ([read_proc (2, 0, 1), read_proc (3, 1, 1), read_proc (1, 0, 2)], [2, 3])"
    by (simp add: run_method_def srtf_def update_cpus_state_def stable_sort_def
        compare_remaining_time_def cpu_less_def)
  show ?thesis
    using slots_valid_after_assign[OF r] d by blast
qed

text \<open>
  Claim C9 as stated fails for a ready list in which two processes have the same id,
  which the program admits: both slots hold the id \<open>7\<close>.
\<close>

theorem slots_repeat_duplicate_id:
  "run_method \<lparr>schedule_method = 0, rr_time = 1, end_read = (\<lambda>pl. None)\<rparr>
     [read_proc (7, 0, 5), read_proc (7, 0, 0)] [0, 0]
   = Inr ([read_proc (7, 0, 5), read_proc (7, 0, 0)], [7, 7])
   \<and> \<not> distinct (filter (\<lambda>c. c \<noteq> - 1) [7, 7 :: int])"
  by (simp add: run_method_def fcfs_def update_cpus_state_def stable_sort_def cpu_less_def)

lemma run_proc_in_run_ids:
  "p \<in> set pl \<Longrightarrow> id_p p \<in> S \<Longrightarrow> set (run_proc p) \<subseteq> set (run_ids S pl)"
  by (induction pl) auto

lemma account_other_id:
  "account pl c = Inr pl1 \<Longrightarrow> c \<noteq> x \<Longrightarrow>
   filter (\<lambda>p. id_p p = x) pl1 = filter (\<lambda>p. id_p p = x) pl"
proof (induction pl arbitrary: pl1)
  case Nil
  then show ?case by simp
next
  case (Cons p pl)
  show ?case
  proof (cases "id_p p = c")
    case True
    then show ?thesis using Cons.prems by (auto split: if_splits)
  next
    case False
    then obtain pl2 where a: "account pl c = Inr pl2" and e: "pl1 = p # pl2"
      using Cons.prems(1) by (auto split: sum.splits)
    have "filter (\<lambda>p. id_p p = x) pl2 = filter (\<lambda>p. id_p p = x) pl"
      using a Cons.prems(2) by (rule Cons.IH)
    then show ?thesis using e by simp
  qed
qed

lemma account_same_id:
  "account pl x = Inr pl1 \<Longrightarrow> filter (\<lambda>p'. id_p p' = x) pl = [p] \<Longrightarrow>
   filter (\<lambda>p'. id_p p' = x) pl1 = run_proc p"
proof (induction pl arbitrary: pl1)
  case Nil
  then show ?case by simp
next
  case (Cons a pl)
  show ?case
  proof (cases "id_p a = x")
    case True
    then have ap: "a = p" and rest: "filter (\<lambda>p'. id_p p' = x) pl = []"
      using Cons.prems(2) by simp_all
    show ?thesis
      using Cons.prems(1) True ap rest by (auto simp: run_proc_def split: if_splits)
  next
    case False
    then obtain pl2 where a: "account pl x = Inr pl2" and e: "pl1 = a # pl2"
      using Cons.prems(1) by (auto split: sum.splits)
    have "filter (\<lambda>p'. id_p p' = x) pl = [p]" using Cons.prems(2) False by simp
    then have "filter (\<lambda>p'. id_p p' = x) pl2 = run_proc p"
      using a by (intro Cons.IH)
    then show ?thesis using e False by simp
  qed
qed

lemma update_proc_list_other_ids:
  "x \<notin> set cs \<Longrightarrow> update_proc_list pl cs = Inr pl'' \<Longrightarrow>
   filter (\<lambda>p. id_p p = x) pl'' = filter (\<lambda>p. id_p p = x) pl"
proof (induction cs arbitrary: pl)
  case Nil
  then show ?case by simp
next
  case (Cons c cs)
  have xc: "c \<noteq> x" and xs: "x \<notin> set cs" using Cons.prems(1) by auto
  show ?case
  proof (cases "c = - 1")
    case True
    then have "update_proc_list pl cs = Inr pl''" using Cons.prems(2) by simp
    then show ?thesis using xs by (intro Cons.IH)
  next
    case False
    then obtain pl1 where a: "account pl c = Inr pl1" and u: "update_proc_list pl1 cs = Inr pl''"
      using Cons.prems(2) by (auto split: sum.splits)
    have "filter (\<lambda>p. id_p p = x) pl'' = filter (\<lambda>p. id_p p = x) pl1"
      using xs u by (rule Cons.IH)
    also have "\<dots> = filter (\<lambda>p. id_p p = x) pl"
      using a xc by (rule account_other_id)
    finally show ?thesis .
  qed
qed

lemma update_proc_list_one_slot:
  "count_list cs x = 1 \<Longrightarrow> x \<noteq> - 1 \<Longrightarrow> filter (\<lambda>p'. id_p p' = x) pl = [p] \<Longrightarrow>
   update_proc_list pl cs = Inr pl'' \<Longrightarrow> filter (\<lambda>p'. id_p p' = x) pl'' = run_proc p"
proof (induction cs arbitrary: pl)
  case Nil
  then show ?case by simp
next
  case (Cons c cs)
  show ?case
  proof (cases "c = x")
    case True
    then have "count_list cs x = 0" using Cons.prems(1) by simp
    then have xs: "x \<notin> set cs" using count_list_0_iff[of cs x] by simp
    obtain pl1 where a: "account pl x = Inr pl1" and u: "update_proc_list pl1 cs = Inr pl''"
      using Cons.prems(2,4) True by (auto split: sum.splits)
    have "filter (\<lambda>p'. id_p p' = x) pl'' = filter (\<lambda>p'. id_p p' = x) pl1"
      using xs u by (rule update_proc_list_other_ids)
    also have "\<dots> = run_proc p"
      using a Cons.prems(3) by (rule account_same_id)
    finally show ?thesis .
  next
    case False
    then have cnt: "count_list cs x = 1" using Cons.prems(1) by simp
    show ?thesis
    proof (cases "c = - 1")
      case True
      then have "update_proc_list pl cs = Inr pl''" using Cons.prems(4) by simp
      then show ?thesis using cnt Cons.prems(2,3) by (intro Cons.IH)
    next
      case c: False
      then obtain pl1 where a: "account pl c = Inr pl1" and u: "update_proc_list pl1 cs = Inr pl''"
        using Cons.prems(4) by (auto split: sum.splits)
      have "filter (\<lambda>p'. id_p p' = x) pl1 = [p]"
        using account_other_id[OF a False] Cons.prems(3) by simp
      then show ?thesis using cnt Cons.prems(2) u by (intro Cons.IH)
    qed
  qed
qed

lemma count_list_map_id:
  "count_list (map id_p pl) x = length (filter (\<lambda>p. id_p p = x) pl)"
  by (induction pl) auto

lemma length_filter_take:
  "length (filter P (take n xs)) \<le> length (filter P xs)"
proof -
  have "filter P xs = filter P (take n xs) @ filter P (drop n xs)"
    by (metis append_take_drop_id filter_append)
  then show ?thesis by simp
qed

lemma count_slots:
  assumes "x \<noteq> - 1"
  shows "count_list (update_cpus_state pl cs) x
       = length (filter (\<lambda>p. id_p p = x) (take (length cs) pl))"
proof -
  have "count_list (update_cpus_state pl cs) x = count (mset (update_cpus_state pl cs)) x"
    by (simp only: count_mset)
  also have "\<dots> = count_list (fill_cpus pl cs) x"
    by (simp only: mset_update_cpus_state count_mset)
  also have "\<dots> = count_list (map id_p (take (length cs) pl)) x"
    using assms by (simp add: fill_cpus_eq)
  finally show ?thesis by (simp only: count_list_map_id)
qed

text \<open>
  Claim C10 (as amended).  The remaining time is a 32-bit unsigned value that starts as
  the execution time.  A process with remaining time \<open>0\<close> (admitted with execution time
  \<open>0\<close>) whose id no other process of the ready list has, and whose id is in a slot, is
  decremented to \<open>2\<^sup>3\<^sup>2 - 1\<close> by the accounting loop and stays in the ready list.
\<close>

theorem exec_time_zero_wraps:
  assumes "run_method cfg pl cs = Inr (pl', cs')"
    and "filter (\<lambda>p'. id_p p' = id_p p) pl' = [p]"
    and "remaining_time p = 0" and "id_p p \<in> set cs'" and "id_p p \<noteq> - 1"
  shows "remaining_time (read_proc (i, pr, e)) = e
       \<and> (\<exists>pl''. update_proc_list pl' cs' = Inr pl''
              \<and> filter (\<lambda>p'. id_p p' = id_p p) pl'' = [p\<lparr>remaining_time := 4294967295\<rparr>]
              \<and> p\<lparr>remaining_time := 4294967295\<rparr> \<in> set pl'')
       \<and> unat (4294967295 :: u32) = 2 ^ 32 - 1"
proof -
  let ?x = "id_p p"
  have r: "cs' = update_cpus_state pl' cs"
    using run_method_Inr[OF assms(1)] by simp
  obtain pl'' where u: "update_proc_list pl' cs' = Inr pl''"
    using slots_valid_after_assign[OF assms(1)] by blast
  have "count_list cs' ?x \<le> length (filter (\<lambda>p'. id_p p' = ?x) pl')"
    unfolding r count_slots[OF assms(5)] by (rule length_filter_take)
  then have "count_list cs' ?x \<le> 1" by (simp add: assms(2))
  moreover have "count_list cs' ?x \<noteq> 0"
    using assms(4) count_list_0_iff[of cs' ?x] by simp
  ultimately have cnt: "count_list cs' ?x = 1" by simp
  have "filter (\<lambda>p'. id_p p' = ?x) pl'' = run_proc p"
    using cnt assms(5,2) u by (rule update_proc_list_one_slot)
  moreover have "run_proc p = [p\<lparr>remaining_time := 4294967295\<rparr>]"
    using assms(3) by (simp add: run_proc_def)
  ultimately have f: "filter (\<lambda>p'. id_p p' = ?x) pl'' = [p\<lparr>remaining_time := 4294967295\<rparr>]"
    by simp
  then have "p\<lparr>remaining_time := 4294967295\<rparr> \<in> set (filter (\<lambda>p'. id_p p' = ?x) pl'')"
    by simp
  then have m: "p\<lparr>remaining_time := 4294967295\<rparr> \<in> set pl''" by simp
  have a: "remaining_time (read_proc (i, pr, e)) = e" by simp
  have b: "unat (4294967295 :: u32) = 2 ^ 32 - 1" by simp
  show ?thesis using a b u f m by blast
qed

text \<open>
  An instance: process \<open>8\<close>, admitted with execution time \<open>0\<close>, beside two processes that
  share the id \<open>7\<close>.
\<close>

theorem exec_time_zero_wraps_witness:
  "remaining_time (read_proc (7, 0, 0)) = 0
   \<and> (\<exists>pl''. update_proc_list [read_proc (7, 0, 0), read_proc (7, 0, 0), read_proc (8, 0, 0)] [7, 7, 8]
               = Inr pl''
          \<and> filter (\<lambda>p'. id_p p' = id_p (read_proc (8, 0, 0))) pl''
            = [(read_proc (8, 0, 0))\<lparr>remaining_time := 4294967295\<rparr>]
          \<and> (read_proc (8, 0, 0))\<lparr>remaining_time := 4294967295\<rparr> \<in> set pl'')"
proof -
  have r: "run_method \<lparr>schedule_method = 0, rr_time = 1, end_read = (\<lambda>pl. None)\<rparr>
            [read_proc (7, 0, 0), read_proc (7, 0, 0), read_proc (8, 0, 0)] [0, 0, 0]
         = Inr ([read_proc (7, 0, 0), read_proc (7, 0, 0), read_proc (8, 0, 0)], [7, 7, 8])"
    by (simp add: run_method_def fcfs_def update_cpus_state_def stable_sort_def cpu_less_def)
  have f: "filter (\<lambda>p'. id_p p' = id_p (read_proc (8, 0, 0)))
             [read_proc (7, 0, 0), read_proc (7, 0, 0), read_proc (8, 0, 0)] = [read_proc (8, 0, 0)]"
    by simp
  have z: "remaining_time (read_proc (8, 0, 0)) = 0" by simp
  have s: "id_p (read_proc (8, 0, 0)) \<in> set [7, 7, 8]" by simp
  have n: "id_p (read_proc (8, 0, 0)) \<noteq> - 1" by simp
  show ?thesis
    using exec_time_zero_wraps[OF r f z s n, of 7 0 0] by simp
qed

text \<open>
  Claim C10 as stated fails when another process has the same id: both slots hold the
  id \<open>7\<close>, the search of the accounting loop finds the first process with that id both
  times, and the process admitted with execution time \<open>0\<close> keeps the remaining time \<open>0\<close>.
\<close>

theorem exec_time_zero_shared_id_stays:
  "run_method \<lparr>schedule_method = 0, rr_time = 1, end_read = (\<lambda>pl. None)\<rparr>
     [read_proc (7, 0, 5), read_proc (7, 0, 0)] [0, 0]
   = Inr ([read_proc (7, 0, 5), read_proc (7, 0, 0)], [7, 7])
   \<and> update_proc_list [read_proc (7, 0, 5), read_proc (7, 0, 0)] [7, 7]
     = Inr [\<lparr>id_p = 7, priority = 0, exec_time = 5, remaining_time = 3\<rparr>,
            \<lparr>id_p = 7, priority = 0, exec_time = 0, remaining_time = 0\<rparr>]"
  by (simp add: run_method_def fcfs_def update_cpus_state_def stable_sort_def cpu_less_def)

section \<open>Round robin\<close>

lemma ids_move_back:
  "i < length pl \<Longrightarrow> id_p ` set (take i pl @ drop (Suc i) pl @ [pl ! i]) = id_p ` set pl"
  using mset_move_back[of i pl] by (metis mset_eq_setD)

lemma rr_loop_absent:
  "reads_ok er pl \<Longrightarrow> c \<notin> id_p ` set pl \<Longrightarrow> c \<noteq> - 1 \<Longrightarrow>
   rr_loop er q pl (pre @ c # post) = rr_loop er q pl (pre @ post)"
proof (induction pre arbitrary: pl)
  case Nil
  obtain v where "er pl = Some v" using reads_ok_self[OF Nil(1)] by blast
  then show ?case using Nil by (simp add: rr_loop_Cons_gen)
next
  case (Cons a pre)
  let ?i = "offset a pl"
  let ?pl = "take ?i pl @ drop (Suc ?i) pl @ [pl ! ?i]"
  have lt: "a \<in> id_p ` set pl \<Longrightarrow> ?i < length pl"
    using offset_present[of a pl] by simp
  have mv: "rr_loop er q ?pl (pre @ c # post) = rr_loop er q ?pl (pre @ post)"
    if a: "a \<in> id_p ` set pl"
  proof -
    have ok: "reads_ok er ?pl"
      using Cons.prems(1) mset_move_back[OF lt[OF a]] by (rule reads_ok_mset)
    have ids: "c \<notin> id_p ` set ?pl"
      using Cons.prems(2) by (simp only: ids_move_back[OF lt[OF a]] not_False_eq_True)
    show ?thesis using ok ids Cons.prems(3) by (rule Cons.IH)
  qed
  have st: "rr_loop er q pl (pre @ c # post) = rr_loop er q pl (pre @ post)"
    using Cons.prems by (rule Cons.IH)
  show ?case
  proof (cases "a \<in> id_p ` set pl")
    case True
    then show ?thesis using mv[OF True] st by (simp add: rr_loop_Cons_gen)
  next
    case False
    then show ?thesis using st by (simp add: rr_loop_Cons_gen split: option.splits)
  qed
qed

text \<open>
  Claim C7 (as amended).  A slot of \<^verbatim>\<open>rr\<close> holds an id which no process of the ready list
  has.  When the reads at \<^verbatim>\<open>end()\<close> of the search yield a value, the slot is passed over by
  the \<^verbatim>\<open>continue\<close>: the loop does what it does without that slot, and with a slice length
  other than zero \<^verbatim>\<open>rr\<close> returns the reordered list and the new slots.  Nothing is said
  about a read that faults.
\<close>

theorem rr_skips_absent_id:
  assumes "c \<notin> id_p ` set pl" and "c \<noteq> - 1" and "reads_ok er pl"
  shows "rr_loop er q pl (pre @ c # post) = rr_loop er q pl (pre @ post)
       \<and> (q \<noteq> 0 \<longrightarrow> (\<exists>pl' cs'. rr er pl (pre @ c # post) q = Inr (pl', cs')
                              \<and> rr_loop er q pl (pre @ post) = Inr pl'))"
proof -
  have eq: "rr_loop er q pl (pre @ c # post) = rr_loop er q pl (pre @ post)"
    using assms(3,1,2) by (rule rr_loop_absent)
  moreover have "\<exists>pl' cs'. rr er pl (pre @ c # post) q = Inr (pl', cs')
      \<and> rr_loop er q pl (pre @ post) = Inr pl'" if nz: "q \<noteq> 0"
  proof -
    obtain pl' where "rr_loop er q pl (pre @ post) = Inr pl'"
      using rr_loop_total[OF nz assms(3)] by blast
    then show ?thesis using eq by (simp add: rr_def)
  qed
  ultimately show ?thesis by blast
qed

text \<open>
  An instance: the only slot holds the id \<open>1\<close>, the ready list holds process \<open>2\<close>, the read
  at \<^verbatim>\<open>end()\<close> yields \<open>0\<close>.
\<close>

theorem rr_skips_absent_id_witness:
  "rr_loop (\<lambda>pl. Some 0) 1 [read_proc (2, 0, 1)] ([] @ 1 # [])
   = rr_loop (\<lambda>pl. Some 0) 1 [read_proc (2, 0, 1)] ([] @ [])
   \<and> (\<exists>pl' cs'. rr (\<lambda>pl. Some 0) [read_proc (2, 0, 1)] ([] @ 1 # []) 1 = Inr (pl', cs')
          \<and> rr_loop (\<lambda>pl. Some 0) 1 [read_proc (2, 0, 1)] ([] @ []) = Inr pl')"
proof -
  have ok: "reads_ok (\<lambda>pl. Some 0) [read_proc (2, 0, 1)]" by (simp add: reads_ok_def)
  have a: "(1 :: int) \<notin> id_p ` set [read_proc (2, 0, 1)]" by simp
  have b: "(1 :: int) \<noteq> - 1" by simp
  show ?thesis
    using rr_skips_absent_id[OF a b ok, of 1 "[]" "[]"] by simp
qed

text \<open>
  Claim C7 as stated fails.  The slot holds the id \<open>1\<close> of a process that completed in the
  previous tick and the read at \<^verbatim>\<open>end()\<close> yields a value: \<^verbatim>\<open>rr\<close> returns normally, and the run
  in which this happens at ticks 1 and 2 ends normally with three records.
\<close>

theorem rr_absent_id_no_error:
  "rr (\<lambda>pl. Some 0) [read_proc (2, 0, 1)] [1] 1 = Inr ([read_proc (2, 0, 1)], [2])
   \<and> main_loop 4 \<lparr>schedule_method = 3, rr_time = 1, end_read = (\<lambda>pl. Some 0)\<rparr>
        (init 1 [Group 0 [(1, 0, 1), (2, 0, 1)]])
     = Some (Inr \<lparr>proc_list = [], cpus_state = [- 1], time = 3, reading = False, stdin = [],
                  stdout = [(0, [1]), (1, [2]), (2, [- 1])]\<rparr>)"
  by code_simp

lemma rr_moved_Nil: "rr_moved q [] p = False"
  by (simp add: rr_moved_def)

lemma rr_moved_idle: "rr_moved q (- 1 # cs) p = False"
  by (simp add: rr_moved_def)

lemma rr_moved_Cons:
  "c \<noteq> - 1 \<Longrightarrow> rr_moved q (c # cs) p = ((id_p p = c \<and> slice_ended q p) \<or> rr_moved q cs p)"
  by (auto simp: rr_moved_def)

lemma unique_id:
  "distinct (map id_p pl) \<Longrightarrow> p \<in> set pl \<Longrightarrow> p' \<in> set pl \<Longrightarrow> id_p p = id_p p' \<Longrightarrow> p = p'"
  by (meson distinct_map inj_onD)

lemma filter_id_single:
  "distinct (map id_p pl) \<Longrightarrow> p \<in> set pl \<Longrightarrow> filter (\<lambda>p'. id_p p' = id_p p) pl = [p]"
proof (induction pl)
  case Nil
  then show ?case by simp
next
  case (Cons a pl)
  show ?case
  proof (cases "a = p")
    case True
    then have "\<forall>x\<in>set pl. id_p x \<noteq> id_p p"
      using Cons.prems(1) by (auto simp: image_iff)
    then have "filter (\<lambda>p'. id_p p' = id_p p) pl = []"
      by (simp add: filter_empty_conv)
    then show ?thesis using True by simp
  next
    case False
    then have "p \<in> set pl" using Cons.prems(2) by simp
    moreover from this have "id_p a \<noteq> id_p p"
      using Cons.prems(1) by (auto simp: image_iff)
    ultimately show ?thesis using Cons by simp
  qed
qed

lemma move_back_filter:
  "distinct (map id_p pl) \<Longrightarrow> c \<in> id_p ` set pl \<Longrightarrow>
   take (offset c pl) pl @ drop (Suc (offset c pl)) pl @ [pl ! offset c pl]
   = filter (\<lambda>p. id_p p \<noteq> c) pl @ [pl ! offset c pl]"
proof (induction pl)
  case Nil
  then show ?case by simp
next
  case (Cons p pl)
  show ?case
  proof (cases "id_p p = c")
    case True
    then have "\<forall>x\<in>set pl. id_p x \<noteq> c"
      using Cons.prems(1) by (auto simp: image_iff)
    then have "filter (\<lambda>p. id_p p \<noteq> c) pl = pl"
      by (simp add: filter_id_conv)
    then show ?thesis using True by simp
  next
    case False
    then show ?thesis using Cons by auto
  qed
qed

lemma rr_loop_skip:
  assumes "c \<noteq> - 1" and "q \<noteq> 0" and "\<forall>p\<in>set pl. id_p p = c \<longrightarrow> \<not> slice_ended q p"
    and "reads_ok er pl"
  shows "rr_loop er q pl (c # cs) = rr_loop er q pl cs"
proof (cases "c \<in> id_p ` set pl")
  case False
  obtain v where "er pl = Some v" using reads_ok_self[OF assms(4)] by blast
  then show ?thesis using assms(1,2) False by (simp add: rr_loop_Cons)
next
  case True
  then have i: "offset c pl < length pl" "id_p (pl ! offset c pl) = c"
    using offset_present by blast+
  then have "pl ! offset c pl \<in> set pl" by simp
  then have "\<not> slice_ended q (pl ! offset c pl)" using assms(3) i(2) by blast
  then show ?thesis
    using assms(1,2) True by (simp add: rr_loop_Cons)
qed

lemma rr_loop_move:
  assumes "c \<noteq> - 1" and "q \<noteq> 0" and "distinct (map id_p pl)"
    and "p \<in> set pl" and "id_p p = c" and "slice_ended q p"
  shows "rr_loop er q pl (c # cs) = rr_loop er q (filter (\<lambda>p. id_p p \<noteq> c) pl @ [p]) cs"
proof -
  have cin: "c \<in> id_p ` set pl" using assms(4,5) by auto
  then have i: "offset c pl < length pl" "id_p (pl ! offset c pl) = c"
    using offset_present by blast+
  then have "pl ! offset c pl \<in> set pl" by simp
  then have pc: "pl ! offset c pl = p"
    using assms(3,4,5) i(2) unique_id by blast
  have mb: "take (offset c pl) pl @ drop (Suc (offset c pl)) pl @ [p]
      = filter (\<lambda>p. id_p p \<noteq> c) pl @ [p]"
    using move_back_filter[OF assms(3) cin] unfolding pc .
  have "rr_loop er q pl (c # cs)
      = rr_loop er q (take (offset c pl) pl @ drop (Suc (offset c pl)) pl @ [p]) cs"
    using assms(1,2,6) cin pc by (simp add: rr_loop_Cons)
  then show ?thesis by (simp only: mb)
qed

lemma rr_loop_moved:
  assumes "q \<noteq> 0"
  shows "distinct (map id_p pl) \<Longrightarrow> reads_ok er pl \<Longrightarrow>
     \<exists>pl' tl. rr_loop er q pl cs = Inr pl' \<and> pl' = filter (\<lambda>p. \<not> rr_moved q cs p) pl @ tl
        \<and> mset tl = mset (filter (rr_moved q cs) pl)"
proof (induction cs arbitrary: pl)
  case Nil
  then show ?case by (simp add: rr_moved_Nil)
next
  case (Cons c cs)
  show ?case
  proof (cases "c = - 1")
    case True
    then show ?thesis by (simp add: rr_moved_idle rr_loop_Cons_gen)
  next
    case c: False
    show ?thesis
    proof (cases "\<exists>p\<in>set pl. id_p p = c \<and> slice_ended q p")
      case False
      then have no: "\<forall>p\<in>set pl. id_p p = c \<longrightarrow> \<not> slice_ended q p" by blast
      have same: "\<And>p. p \<in> set pl \<Longrightarrow> rr_moved q (c # cs) p = rr_moved q cs p"
        using no c by (auto simp: rr_moved_Cons)
      have f1: "filter (\<lambda>p. \<not> rr_moved q (c # cs) p) pl = filter (\<lambda>p. \<not> rr_moved q cs p) pl"
        using same by (intro filter_cong) auto
      have f2: "filter (rr_moved q (c # cs)) pl = filter (rr_moved q cs) pl"
        using same by (intro filter_cong) auto
      have "rr_loop er q pl (c # cs) = rr_loop er q pl cs"
        using c assms no Cons.prems(2) by (rule rr_loop_skip)
      then show ?thesis
        using Cons.IH[OF Cons.prems] by (simp only: f1 f2)
    next
      case True
      then obtain p where p: "p \<in> set pl" "id_p p = c" "slice_ended q p" by blast
      let ?A = "filter (\<lambda>p. id_p p \<noteq> c) pl"
      have only: "\<And>p'. p' \<in> set pl \<Longrightarrow> id_p p' = c \<Longrightarrow> p' = p"
        using Cons.prems(1) p(1,2) unique_id by blast
      have step: "rr_loop er q pl (c # cs) = rr_loop er q (?A @ [p]) cs"
        using c assms Cons.prems(1) p by (rule rr_loop_move)
      have fp: "filter (\<lambda>p. id_p p = c) pl = [p]"
        using filter_id_single[OF Cons.prems(1) p(1)] p(2) by simp
      have "mset pl = mset (filter (\<lambda>p. id_p p = c) pl) + mset (filter (\<lambda>p. id_p p \<noteq> c) pl)"
        using multiset_partition[of "mset pl" "\<lambda>p. id_p p = c"] by simp
      then have ms: "mset pl = mset (?A @ [p])"
        by (simp add: fp)
      have d1: "distinct (map id_p (?A @ [p]))"
        using Cons.prems(1) ms by (metis mset_eq_imp_distinct_iff mset_map)
      have ok1: "reads_ok er (?A @ [p])"
        using Cons.prems(2) ms[symmetric] by (rule reads_ok_mset)
      obtain pl' tl1 where ih: "rr_loop er q (?A @ [p]) cs = Inr pl'"
        "pl' = filter (\<lambda>p. \<not> rr_moved q cs p) (?A @ [p]) @ tl1"
        "mset tl1 = mset (filter (rr_moved q cs) (?A @ [p]))"
        using Cons.IH[OF d1 ok1] by blast
      have mvp: "rr_moved q (c # cs) p" using p c by (simp add: rr_moved_Cons)
      have onA: "\<And>p'. p' \<in> set ?A \<Longrightarrow> rr_moved q (c # cs) p' = rr_moved q cs p'"
        using c by (simp add: rr_moved_Cons)
      have fA: "filter (\<lambda>p. \<not> rr_moved q (c # cs) p) pl = filter (\<lambda>p. \<not> rr_moved q cs p) ?A"
      proof -
        have "filter (\<lambda>p. \<not> rr_moved q (c # cs) p) pl
            = filter (\<lambda>p. \<not> rr_moved q (c # cs) p) ?A"
          unfolding filter_filter using mvp only by (intro filter_cong) auto
        also have "\<dots> = filter (\<lambda>p. \<not> rr_moved q cs p) ?A"
          using onA by (intro filter_cong) auto
        finally show ?thesis .
      qed
      let ?tl = "(if rr_moved q cs p then [] else [p]) @ tl1"
      have e1: "pl' = filter (\<lambda>p. \<not> rr_moved q (c # cs) p) pl @ ?tl"
        using ih(2) fA by simp
      have "mset (filter (rr_moved q (c # cs)) pl) = mset (filter (rr_moved q (c # cs)) (?A @ [p]))"
        using ms by (metis mset_filter)
      also have "\<dots> = mset (filter (rr_moved q (c # cs)) ?A) + {#p#}"
        using mvp by simp
      also have "filter (rr_moved q (c # cs)) ?A = filter (rr_moved q cs) ?A"
        using onA by (intro filter_cong) auto
      finally have e2: "mset ?tl = mset (filter (rr_moved q (c # cs)) pl)"
        using ih(3) by simp
      have r: "rr_loop er q pl (c # cs) = Inr pl'" using step ih(1) by simp
      show ?thesis
        by (rule exI[of _ pl'], rule exI[of _ ?tl]) (intro conjI r e1 e2)
    qed
  qed
qed

lemma set_takeWhile_occupied:
  "set (dropWhile (\<lambda>c. c \<noteq> - 1) cs) \<subseteq> {- 1 :: int} \<Longrightarrow>
   set (takeWhile (\<lambda>c. c \<noteq> - 1) cs) = set cs - {- 1}"
proof (induction cs)
  case Nil
  show ?case by simp
next
  case (Cons a cs)
  show ?case
  proof (cases "a = - 1")
    case True
    have t: "takeWhile (\<lambda>c. c \<noteq> - 1) (a # cs) = []" using True by simp
    have d: "dropWhile (\<lambda>c. c \<noteq> - 1) (a # cs) = a # cs" using True by simp
    have "set (a # cs) \<subseteq> {- 1}" using Cons.prems unfolding d .
    then have "set (a # cs) - {- 1} = {}" by blast
    then show ?thesis unfolding t by simp
  next
    case False
    have t: "takeWhile (\<lambda>c. c \<noteq> - 1) (a # cs) = a # takeWhile (\<lambda>c. c \<noteq> - 1) cs"
      using False by simp
    have d: "dropWhile (\<lambda>c. c \<noteq> - 1) (a # cs) = dropWhile (\<lambda>c. c \<noteq> - 1) cs"
      using False by simp
    have "set (dropWhile (\<lambda>c. c \<noteq> - 1) cs) \<subseteq> {- 1}" using Cons.prems unfolding d .
    then have ih: "set (takeWhile (\<lambda>c. c \<noteq> - 1) cs) = set cs - {- 1}" by (rule Cons.IH)
    have "insert a (set cs - {- 1}) = insert a (set cs) - {- 1}" using False by blast
    then show ?thesis unfolding t by (simp only: list.set ih)
  qed
qed

lemma rr_moved_canonical:
  assumes "set (dropWhile (\<lambda>c. c \<noteq> - 1) cs) \<subseteq> {- 1}"
  shows "rr_moved q cs p = (id_p p \<in> set cs \<and> id_p p \<noteq> - 1 \<and> slice_ended q p)"
  unfolding rr_moved_def set_takeWhile_occupied[OF assms] by blast

text \<open>
  Claim C4 (as amended).  Round robin on a ready list with pairwise distinct ids, with a
  slice length other than zero and reads at \<^verbatim>\<open>end()\<close> that yield a value: the processes
  for which \<^const>\<open>rr_moved\<close> holds are behind all others, in the resulting list, and the
  others keep their order.  \<^const>\<open>rr_moved\<close> holds for a process when its id is in a slot
  in front of the first slot holding \<open>-1\<close> and its executed time is positive and a
  multiple of the slice length; when no occupied slot follows a slot holding \<open>-1\<close>, these
  are the processes whose id is in any slot.  A process whose id is in no slot is not
  moved.
\<close>

theorem rr_moves_ended_slices:
  assumes "distinct (map id_p pl)" and "q \<noteq> 0" and "reads_ok er pl"
  shows "(\<exists>pl'. rr er pl cs q = Inr (pl', update_cpus_state pl' cs)
            \<and> mset pl' = mset pl
            \<and> filter (\<lambda>p. \<not> rr_moved q cs p) pl' = filter (\<lambda>p. \<not> rr_moved q cs p) pl
            \<and> pl' = filter (\<lambda>p. \<not> rr_moved q cs p) pl @ filter (rr_moved q cs) pl')
       \<and> (set (dropWhile (\<lambda>c. c \<noteq> - 1) cs) \<subseteq> {- 1} \<longrightarrow>
            (\<forall>p. rr_moved q cs p = (id_p p \<in> set cs \<and> id_p p \<noteq> - 1 \<and> slice_ended q p)))"
proof -
  let ?mv = "rr_moved q cs"
  obtain pl' tl where r: "rr_loop er q pl cs = Inr pl'"
    and pl': "pl' = filter (\<lambda>p. \<not> ?mv p) pl @ tl"
    and tl: "mset tl = mset (filter ?mv pl)"
    using rr_loop_moved[OF assms(2,1,3), of cs] by blast
  have "set tl = set (filter ?mv pl)" using tl by (rule mset_eq_setD)
  then have all: "\<And>p. p \<in> set tl \<Longrightarrow> ?mv p" by simp
  have t1: "filter ?mv tl = tl" using all by (simp add: filter_id_conv)
  have t2: "filter (\<lambda>p. \<not> ?mv p) tl = []" using all by (simp add: filter_empty_conv)
  have a: "filter (\<lambda>p. \<not> ?mv p) pl' = filter (\<lambda>p. \<not> ?mv p) pl"
    unfolding pl' by (simp add: t2)
  have "filter ?mv pl' = tl"
    unfolding pl' by (simp add: t1)
  then have b: "pl' = filter (\<lambda>p. \<not> ?mv p) pl @ filter ?mv pl'"
    by (simp only: pl')
  have c: "mset pl' = mset pl" using r by (rule rr_loop_mset)
  have d: "rr er pl cs q = Inr (pl', update_cpus_state pl' cs)"
    using r by (simp add: rr_def)
  have first: "\<exists>pl'. rr er pl cs q = Inr (pl', update_cpus_state pl' cs)
            \<and> mset pl' = mset pl
            \<and> filter (\<lambda>p. \<not> rr_moved q cs p) pl' = filter (\<lambda>p. \<not> rr_moved q cs p) pl
            \<and> pl' = filter (\<lambda>p. \<not> rr_moved q cs p) pl @ filter (rr_moved q cs) pl'"
    by (rule exI[of _ pl']) (intro conjI d c a b)
  have second: "set (dropWhile (\<lambda>c. c \<noteq> - 1) cs) \<subseteq> {- 1} \<longrightarrow>
            (\<forall>p. rr_moved q cs p = (id_p p \<in> set cs \<and> id_p p \<noteq> - 1 \<and> slice_ended q p))"
    by (intro impI allI rr_moved_canonical)
  show ?thesis using first second by (rule conjI)
qed

text \<open>
  An instance: process \<open>1\<close> has run two of its three ticks, the slice length is \<open>2\<close>.
\<close>

theorem rr_moves_ended_slices_witness:
  "\<exists>pl'. rr (\<lambda>pl. Some 0)
             [\<lparr>id_p = 1, priority = 0, exec_time = 3, remaining_time = 1\<rparr>, read_proc (2, 0, 2)] [1] 2
           = Inr (pl', update_cpus_state pl' [1])
      \<and> mset pl' = mset [\<lparr>id_p = 1, priority = 0, exec_time = 3, remaining_time = 1\<rparr>, read_proc (2, 0, 2)]
      \<and> filter (\<lambda>p. \<not> rr_moved 2 [1] p) pl'
        = filter (\<lambda>p. \<not> rr_moved 2 [1] p)
            [\<lparr>id_p = 1, priority = 0, exec_time = 3, remaining_time = 1\<rparr>, read_proc (2, 0, 2)]
      \<and> pl' = filter (\<lambda>p. \<not> rr_moved 2 [1] p)
            [\<lparr>id_p = 1, priority = 0, exec_time = 3, remaining_time = 1\<rparr>, read_proc (2, 0, 2)]
          @ filter (rr_moved 2 [1]) pl'"
proof -
  let ?pl = "[\<lparr>id_p = 1, priority = 0, exec_time = 3, remaining_time = 1\<rparr>, read_proc (2, 0, 2)]"
  have d: "distinct (map id_p ?pl)" by simp
  have q: "(2 :: u32) \<noteq> 0" by simp
  have ok: "reads_ok (\<lambda>pl. Some 0) ?pl" by (simp add: reads_ok_def)
  show ?thesis
    by (rule rr_moves_ended_slices[OF d q ok, of "[1]", THEN conjunct1])
qed

text \<open>
  Claim C4 as stated fails.  After two ticks of the run below the slots are
  \<open>[3, -1, -5]\<close>: process \<open>-5\<close> is in a slot and has run two ticks with the slice length
  \<open>2\<close>, but the loop of \<^verbatim>\<open>rr\<close> stops at the slot holding \<open>-1\<close>, and the process stays at
  the front of the ready list.
\<close>

theorem rr_negative_id_not_moved:
  "rr (\<lambda>pl. Some 0)
      [\<lparr>id_p = - 5, priority = 0, exec_time = 5, remaining_time = 3\<rparr>,
       \<lparr>id_p = 3, priority = 0, exec_time = 5, remaining_time = 4\<rparr>] [3, - 1, - 5] 2
   = Inr ([\<lparr>id_p = - 5, priority = 0, exec_time = 5, remaining_time = 3\<rparr>,
           \<lparr>id_p = 3, priority = 0, exec_time = 5, remaining_time = 4\<rparr>], [3, - 1, - 5])
   \<and> id_p \<lparr>id_p = - 5, priority = 0, exec_time = 5, remaining_time = 3\<rparr> \<in> set [3, - 1, - 5]
   \<and> slice_ended 2 \<lparr>id_p = - 5, priority = 0, exec_time = 5, remaining_time = 3\<rparr>
   \<and> run_ticks 2 \<lparr>schedule_method = 3, rr_time = 2, end_read = (\<lambda>pl. Some 0)\<rparr>
        (init 3 [Group 0 [(- 5, 0, 5)], Group 1 [(3, 0, 5)]])
     = Inr \<lparr>proc_list = [\<lparr>id_p = - 5, priority = 0, exec_time = 5, remaining_time = 3\<rparr>,
                         \<lparr>id_p = 3, priority = 0, exec_time = 5, remaining_time = 4\<rparr>],
            cpus_state = [3, - 1, - 5], time = 2, reading = True, stdin = [],
            stdout = [(0, [- 1, - 1, - 5]), (1, [3, - 1, - 5])]\<rparr>"
  by code_simp

section \<open>One iteration of the loop\<close>

lemma read_input_Group:
  "reading s \<Longrightarrow> stdin s = Group t pds # rest \<Longrightarrow>
   read_input s = s\<lparr>time := t, proc_list := proc_list s @ map read_proc pds, stdin := rest\<rparr>"
  by (simp add: read_input_def)

lemma loop_body_Inr:
  "loop_body cfg s = Inr s' \<Longrightarrow>
   \<exists>pl cs pl'. run_method cfg (proc_list (read_input s)) (cpus_state (read_input s)) = Inr (pl, cs)
      \<and> update_proc_list pl cs = Inr pl'
      \<and> s' = (read_input s)\<lparr>proc_list := pl', cpus_state := cs,
                 stdout := stdout (read_input s) @ [(time (read_input s), cs)],
                 time := time (read_input s) + 1\<rparr>"
  by (auto simp: loop_body_def Let_def split: sum.splits prod.splits)


text \<open>
  Claim C2 (as amended).  When the loop reads a group, the time stamp of the group
  replaces the simulation time, whatever that was: the iteration does exactly what it
  does when the time already equals the time stamp.  If the iteration returns, the
  record it writes carries the time stamp and the time becomes the time stamp plus one;
  and it returns whenever the policy does.  No failure comes from the time stamp.
\<close>

theorem loop_body_adopts_timestamp:
  assumes "reading s" and "stdin s = Group t pds # rest"
  shows "loop_body cfg s = loop_body cfg (s\<lparr>time := t\<rparr>)
       \<and> (\<forall>s'. loop_body cfg s = Inr s' \<longrightarrow>
              stdout s' = stdout s @ [(t, cpus_state s')] \<and> time s' = t + 1
              \<and> stdin s' = rest \<and> reading s')
       \<and> (\<forall>pl cs. run_method cfg (proc_list s @ map read_proc pds) (cpus_state s) = Inr (pl, cs)
              \<longrightarrow> (\<exists>s'. loop_body cfg s = Inr s' \<and> cpus_state s' = cs))"
proof -
  have r: "read_input s = s\<lparr>time := t, proc_list := proc_list s @ map read_proc pds, stdin := rest\<rparr>"
    using assms by (rule read_input_Group)
  have r': "read_input (s\<lparr>time := t\<rparr>)
          = s\<lparr>time := t, proc_list := proc_list s @ map read_proc pds, stdin := rest\<rparr>"
    using assms by (simp add: read_input_def)
  have a: "loop_body cfg s = loop_body cfg (s\<lparr>time := t\<rparr>)"
    by (simp add: loop_body_def Let_def r r')
  have b: "\<forall>s'. loop_body cfg s = Inr s' \<longrightarrow>
              stdout s' = stdout s @ [(t, cpus_state s')] \<and> time s' = t + 1
              \<and> stdin s' = rest \<and> reading s'"
  proof (intro allI impI)
    fix s' assume "loop_body cfg s = Inr s'"
    then obtain pl cs pl' where
      "s' = (read_input s)\<lparr>proc_list := pl', cpus_state := cs,
                 stdout := stdout (read_input s) @ [(time (read_input s), cs)],
                 time := time (read_input s) + 1\<rparr>"
      using loop_body_Inr by blast
    then show "stdout s' = stdout s @ [(t, cpus_state s')] \<and> time s' = t + 1
              \<and> stdin s' = rest \<and> reading s'"
      using assms(1) by (simp add: r)
  qed
  have c: "\<forall>pl cs. run_method cfg (proc_list s @ map read_proc pds) (cpus_state s) = Inr (pl, cs)
              \<longrightarrow> (\<exists>s'. loop_body cfg s = Inr s' \<and> cpus_state s' = cs)"
  proof (intro allI impI)
    fix pl cs
    assume m: "run_method cfg (proc_list s @ map read_proc pds) (cpus_state s) = Inr (pl, cs)"
    obtain pl'' where u: "update_proc_list pl cs = Inr pl''"
      using slots_valid_after_assign[OF m] by blast
    show "\<exists>s'. loop_body cfg s = Inr s' \<and> cpus_state s' = cs"
      using m u by (simp add: loop_body_def Let_def r)
  qed
  show ?thesis using a b c by (intro conjI)
qed

text \<open>
  An instance: the first line carries the time stamp \<open>3\<close> while the simulation time is
  \<open>0\<close>.
\<close>

theorem loop_body_adopts_timestamp_witness:
  "loop_body \<lparr>schedule_method = 0, rr_time = 1, end_read = (\<lambda>pl. None)\<rparr> (init 1 [Group 3 [(1, 0, 1)]])
   = loop_body \<lparr>schedule_method = 0, rr_time = 1, end_read = (\<lambda>pl. None)\<rparr>
       ((init 1 [Group 3 [(1, 0, 1)]])\<lparr>time := 3\<rparr>)
   \<and> (\<exists>s'. loop_body \<lparr>schedule_method = 0, rr_time = 1, end_read = (\<lambda>pl. None)\<rparr>
              (init 1 [Group 3 [(1, 0, 1)]]) = Inr s'
          \<and> stdout s' = [(3, [1])] \<and> time s' = 4 \<and> stdin s' = [] \<and> reading s')"
proof -
  let ?cfg = "\<lparr>schedule_method = 0, rr_time = 1, end_read = (\<lambda>pl. None)\<rparr>"
  let ?s = "init 1 [Group 3 [(1, 0, 1)]]"
  have rd: "reading ?s" by (simp add: init_def)
  have inp: "stdin ?s = Group 3 [(1, 0, 1)] # []" by (simp add: init_def)
  have m: "run_method ?cfg (proc_list ?s @ map read_proc [(1, 0, 1)]) (cpus_state ?s)
         = Inr ([read_proc (1, 0, 1)], [1])"
    by (simp add: init_def run_method_def fcfs_def update_cpus_state_def stable_sort_def)
  note t = loop_body_adopts_timestamp[OF rd inp, of ?cfg]
  obtain s' where s': "loop_body ?cfg ?s = Inr s'" "cpus_state s' = [1]"
    using t m by blast
  have "stdout s' = stdout ?s @ [(3, cpus_state s')] \<and> time s' = 3 + 1 \<and> stdin s' = [] \<and> reading s'"
    using t s'(1) by blast
  then have "stdout s' = [(3, [1])] \<and> time s' = 4 \<and> stdin s' = [] \<and> reading s'"
    using s'(2) by (simp add: init_def)
  then show ?thesis using t s'(1) by blast
qed

text \<open>
  Claim C2 as stated fails: the run with that input ends normally, with a record for
  the tick of the group, labelled \<open>3\<close>, and one more.
\<close>

theorem wrong_timestamp_no_error:
  "main_loop 3 \<lparr>schedule_method = 0, rr_time = 1, end_read = (\<lambda>pl. None)\<rparr> (init 1 [Group 3 [(1, 0, 1)]])
   = Some (Inr \<lparr>proc_list = [], cpus_state = [- 1], time = 5, reading = False, stdin = [],
                stdout = [(3, [1]), (4, [- 1])]\<rparr>)
   \<and> time (init 1 [Group 3 [(1, 0, 1)]]) = 0"
  by code_simp

section \<open>Invariants of the loop\<close>



lemma pending_split:
  "\<exists>rest. pending s = proc_list s @ rest
     \<and> (\<forall>pl. pending (s\<lparr>proc_list := pl\<rparr>) = pl @ rest)"
  by (simp add: pending_def)








lemma wt_pos: "0 < wt p"
proof (cases "remaining_time p = 0")
  case True
  then show ?thesis by (simp add: wt_def)
next
  case False
  then have "unat (remaining_time p) \<noteq> 0" by (simp add: unat_eq_zero)
  then show ?thesis using False by (simp add: wt_def)
qed





















section \<open>The loop comes to its end\<close>





lemma read_input_not_reading: "\<not> reading s \<Longrightarrow> read_input s = s"
  by (simp add: read_input_def)









end
